theory Spec2Isabelle
  imports Complex_Main "HOL-Library.Word" "HOL-Library.Log_Nat"
begin

unbundle bit_operations_syntax

section \<open>The laser monitor firmware (laserMonitor.ino)\<close>

text \<open>
  The sketch runs on a MicroView (ATmega328P, avr-gcc). On that target \<open>int\<close> is a
  16-bit two's complement integer, \<open>uint16_t\<close> is \<open>unsigned int\<close>, and both
  \<open>float\<close> and \<open>double\<close> are the 32-bit IEEE 754 binary32 format. Every
  floating-point operation of the sketch is therefore one exact operation on the
  operands followed by one rounding to binary32.

  The model makes the rounding a parameter \<open>rnd\<close> of every function that computes with
  floats: \<open>rnd (x + y)\<close> is the machine sum of the floats \<open>x\<close> and \<open>y\<close>. The
  rounding of the target is \<open>round32\<close> below; the identity function gives exact
  arithmetic. Literals that binary32 represents exactly (0.0, 1.0, 2.5, 8, 99.0, 1000)
  and the conversion of a 16-bit integer to float are written without rounding;
  literals that it does not represent (5 / 1023.0, 3.61, 1.1) are written with it.
\<close>

type_synonym u8 = "8 word"
type_synonym u16 = "16 word"
type_synonym s16 = "16 word"

subsection \<open>Rounding to binary32\<close>

text \<open>Round to the nearest integer, ties to the even one.\<close>

definition rne :: "real \<Rightarrow> int" where
  "rne y = (let f = \<lfloor>y\<rfloor>; d = y - of_int f in
            if d < 1 / 2 then f
            else if 1 / 2 < d then f + 1
            else if even f then f else f + 1)"

text \<open>
  The spacing of the binary32 values around \<open>x\<close> is \<open>quantum (ulp_exp x)\<close>:
  \<open>2 ^ (e - 23)\<close> for \<open>2 ^ e \<le> \<bar>x\<bar> < 2 ^ (e + 1)\<close> with \<open>-126 \<le> e\<close>, and
  \<open>1 / 2 ^ 149\<close> below \<open>2 ^ -126\<close> (the subnormal range). \<open>bitlen n\<close> is the
  number of binary digits of \<open>n\<close>, so \<open>ulp_exp x\<close> is \<open>e + 126\<close> in the first case
  and 0, by the subtraction on natural numbers, in the second.
\<close>

definition quantum :: "nat \<Rightarrow> real" where
  "quantum k = 2 ^ k / 2 ^ 149"

definition ulp_exp :: "real \<Rightarrow> nat" where
  "ulp_exp x = nat (bitlen \<lfloor>\<bar>x\<bar> * 2 ^ 126\<rfloor>) - 1"

text \<open>
  Round to nearest, ties to even, at that spacing. Values of magnitude \<open>2 ^ 128\<close> and
  above, which binary32 turns into an infinity, are outside the model: the sketch
  computes with ADC counts below 1024, two voltage scale factors below 4 and eight-term
  sums of clipped currents, all far below that.
\<close>

definition round32 :: "real \<Rightarrow> real" where
  "round32 x = (let q = quantum (ulp_exp x) in of_int (rne (x / q)) * q)"

subsection \<open>Constants\<close>

definition MAX_CURRENT :: real where
  "MAX_CURRENT = 5 / 2"

definition R25 :: real where
  "R25 = 11 / 10"

definition R_VAL :: real where
  "R_VAL = R25"

definition N :: nat where
  "N = 8"

definition DWELL_COUNT :: u16 where
  "DWELL_COUNT = 50"

definition MIN_TEMP :: real where
  "MIN_TEMP = 1"

definition MAX_TEMP :: real where
  "MAX_TEMP = 99"

text \<open>
  \<open>int(x)\<close> on a float truncates towards zero; the result is undefined when it does
  not fit the 16-bit \<open>int\<close>, which the model reports as \<open>None\<close>.
\<close>

definition float_to_int :: "real \<Rightarrow> int option" where
  "float_to_int x = (let t = (if 0 \<le> x then \<lfloor>x\<rfloor> else \<lceil>x\<rceil>) in
                      if - 32768 \<le> t \<and> t \<le> 32767 then Some t else None)"

text \<open>\<open>#define MAX_VAL int(MAX_CURRENT * 1000)\<close>\<close>

definition MAX_VAL :: "(real \<Rightarrow> real) \<Rightarrow> int option" where
  "MAX_VAL rnd = float_to_int (rnd (MAX_CURRENT * 1000))"

text \<open>\<open>#define VOLTAGE(val) (((val) * (5 / 1023.0)) * 3.61)\<close>\<close>

definition VOLTAGE :: "(real \<Rightarrow> real) \<Rightarrow> int \<Rightarrow> real" where
  "VOLTAGE rnd val = rnd (rnd (of_int val * rnd (5 / 1023)) * rnd (361 / 100))"

subsection \<open>Global state and the inputs of one loop iteration\<close>

text \<open>
  \<open>float current[N] = { 0.0 }; uint16_t indx = 0; int iter = 0;\<close>
  The widgets belong to the display library and are not part of the state.
\<close>

record globals =
  current :: "real list"
  indx :: u16
  iter :: s16

definition init_globals :: globals where
  "init_globals = \<lparr>current = replicate N 0, indx = 0, iter = 0\<rparr>"

datatype level = LOW | HIGH

text \<open>
  What the hardware returns during one iteration of \<open>loop\<close>: the two switch pins,
  \<open>analogRead(A0)\<close>, \<open>analogRead(A1)\<close> and \<open>sensors.getTempCByIndex(0)\<close>.
\<close>

record inputs =
  switch1 :: level
  switch2 :: level
  adc0 :: int
  adc1 :: int
  tempC :: real

subsection \<open>getSelector\<close>

definition getSelector :: "level \<Rightarrow> level \<Rightarrow> u16" where
  "getSelector sw2 sw1 =
     (let sel = (0 :: u8);
          sel = (if sw2 = LOW then 2 else sel);
          sel = (if sw1 = LOW then sel OR 1 else sel)
      in ucast sel)"

subsection \<open>getMeter\<close>

text \<open>
  \<open>val = (((iter / dwell) % num) + 1); iter++; return val;\<close>
  The operands of the division are \<open>int\<close> and \<open>unsigned int\<close>, so \<open>iter\<close> is
  converted to unsigned and the whole expression is unsigned 16-bit arithmetic. The
  counter is kept as its two's complement bit pattern (\<open>sint\<close> reads the \<open>int\<close>),
  which the conversion to unsigned leaves as it is. A zero divisor is undefined
  behaviour, reported as \<open>None\<close>. \<open>iter++\<close> wraps around.
\<close>

definition getMeter :: "u16 \<Rightarrow> u16 \<Rightarrow> s16 \<Rightarrow> (u16 \<times> s16) option" where
  "getMeter num dwell it =
     (if dwell = 0 \<or> num = 0 then None
      else Some ((((ucast it :: u16) div dwell) mod num) + 1, it + 1))"

text \<open>\<open>n\<close> successive calls: the values returned, in order, and the counter left behind.\<close>

fun getMeter_calls :: "nat \<Rightarrow> u16 \<Rightarrow> u16 \<Rightarrow> s16 \<Rightarrow> (u16 list \<times> s16) option" where
  "getMeter_calls 0 num dwell it = Some ([], it)"
| "getMeter_calls (Suc n) num dwell it =
     (case getMeter num dwell it of
        None \<Rightarrow> None
      | Some (v, it') \<Rightarrow>
          (case getMeter_calls n num dwell it' of
             None \<Rightarrow> None
           | Some (vs, it'') \<Rightarrow> Some (v # vs, it'')))"

subsection \<open>getCurrent\<close>

text \<open>\<open>current = ((v1 - v2) / R_VAL);\<close>\<close>

definition unclipped_current :: "(real \<Rightarrow> real) \<Rightarrow> real \<Rightarrow> real \<Rightarrow> real" where
  "unclipped_current rnd v1 v2 = rnd (rnd (v1 - v2) / rnd R_VAL)"

text \<open>The two \<open>if\<close> statements that clip to min/max levels.\<close>

definition clip :: "real \<Rightarrow> real" where
  "clip c = (let c = (if c > MAX_CURRENT then MAX_CURRENT else c);
                 c = (if c < 0 then 0 else c)
             in c)"

definition getCurrent :: "(real \<Rightarrow> real) \<Rightarrow> int \<Rightarrow> int \<Rightarrow> real" where
  "getCurrent rnd a0 a1 =
     (let v1 = VOLTAGE rnd a0;
          v2 = VOLTAGE rnd a1
      in clip (unclipped_current rnd v1 v2))"

subsection \<open>updatePower\<close>

text \<open>\<open>for (i = 0; i < N; i++) { avgCurrent += current[i]; }\<close>\<close>

function sum_slots :: "(real \<Rightarrow> real) \<Rightarrow> real list \<Rightarrow> nat \<Rightarrow> real \<Rightarrow> real" where
  "sum_slots rnd cur i acc =
     (if i < N then sum_slots rnd cur (i + 1) (rnd (acc + cur ! i)) else acc)"
  by pat_completeness auto
termination
  by (relation "measure (\<lambda>(rnd, cur, i, acc). N - i)") auto

declare sum_slots.simps [simp del]

text \<open>
  The body of \<open>updatePower\<close> from the store of the new sample on, with the sample as
  a parameter: store at \<open>indx++ % N\<close>, average all \<open>N\<close> slots, convert to mA. The
  result is the new state, \<open>avgCurrent\<close> (printed on the numeric strip) and the
  argument of \<open>powerGauge->setValue\<close>.
\<close>

definition store_and_average ::
  "(real \<Rightarrow> real) \<Rightarrow> globals \<Rightarrow> real \<Rightarrow> globals \<times> real \<times> int option" where
  "store_and_average rnd g sample =
     (let i = unat (indx g) mod N;
          g = g\<lparr>indx := indx g + 1\<rparr>;
          g = g\<lparr>current := (current g)[i := sample]\<rparr>;
          avgCurrent = sum_slots rnd (current g) 0 0;
          avgCurrent = rnd (avgCurrent / of_nat N);
          val = float_to_int (rnd (avgCurrent * 1000))
      in (g, avgCurrent, val))"

definition updatePower ::
  "(real \<Rightarrow> real) \<Rightarrow> globals \<Rightarrow> int \<Rightarrow> int \<Rightarrow> globals \<times> real \<times> int option" where
  "updatePower rnd g a0 a1 = store_and_average rnd g (getCurrent rnd a0 a1)"

text \<open>Samples pushed one after the other: the state and the last average computed.\<close>

fun push_samples :: "(real \<Rightarrow> real) \<Rightarrow> globals \<Rightarrow> real list \<Rightarrow> globals" where
  "push_samples rnd g [] = g"
| "push_samples rnd g (x # xs) = push_samples rnd (fst (store_and_average rnd g x)) xs"

definition last_average :: "(real \<Rightarrow> real) \<Rightarrow> globals \<Rightarrow> real list \<Rightarrow> real" where
  "last_average rnd g xs =
     fst (snd (store_and_average rnd (push_samples rnd g (butlast xs)) (last xs)))"

subsection \<open>getTemperature\<close>

definition getTemperature :: "real \<Rightarrow> real" where
  "getTemperature raw =
     (let val = raw;
          val = (if val < MIN_TEMP then MIN_TEMP else val);
          val = (if val > MAX_TEMP then MAX_TEMP else val)
      in val)"

text \<open>
  \<open>val = (uint16_t)getTemperature(); tempSlider->setValue(val);\<close>
  The cast truncates towards zero and is undefined outside the range of \<open>uint16_t\<close>;
  the result is the argument of \<open>setValue\<close>.
\<close>

definition updateTemperature :: "real \<Rightarrow> int option" where
  "updateTemperature raw =
     (let x = getTemperature raw;
          t = (if 0 \<le> x then \<lfloor>x\<rfloor> else \<lceil>x\<rceil>)
      in if 0 \<le> t \<and> t \<le> 65535 then Some t else None)"

subsection \<open>loop\<close>

text \<open>
  What one iteration puts on the display: a cleared page, the power meter with the
  averaged current and the gauge value, the temperature meter with the slider value,
  or nothing new.
\<close>

datatype shown =
  Cleared
| Power real "int option"
| Temperature "int option"
| Unchanged

text \<open>The first \<open>switch\<close> of \<open>loop\<close>: the meter for a selector value.\<close>

definition choose_meter :: "u16 \<Rightarrow> s16 \<Rightarrow> (u16 \<times> s16) option" where
  "choose_meter sel it =
     (if sel = 0 then getMeter 2 DWELL_COUNT it
      else if sel = 1 \<or> sel = 2 then Some (sel, it)
      else Some (1, it))"

text \<open>The second \<open>switch\<close>: update the meter chosen.\<close>

definition show_meter :: "(real \<Rightarrow> real) \<Rightarrow> u16 \<Rightarrow> globals \<Rightarrow> inputs \<Rightarrow> globals \<times> shown" where
  "show_meter rnd meter g inp =
     (if meter = 0 then (g, Cleared)
      else if meter = 1 then
        (case updatePower rnd g (adc0 inp) (adc1 inp) of
           (g', avg, val) \<Rightarrow> (g', Power avg val))
      else if meter = 2 then (g, Temperature (updateTemperature (tempC inp)))
      else (g, Unchanged))"

definition loop :: "(real \<Rightarrow> real) \<Rightarrow> globals \<Rightarrow> inputs \<Rightarrow> (globals \<times> shown) option" where
  "loop rnd g inp =
     (let sel = getSelector (switch2 inp) (switch1 inp) in
      case choose_meter sel (iter g) of
        None \<Rightarrow> None
      | Some (meter, it) \<Rightarrow> Some (show_meter rnd meter (g\<lparr>iter := it\<rparr>) inp))"

text \<open>The states the sketch can be in: after \<open>setup\<close> and after any number of iterations.\<close>

inductive reachable :: "(real \<Rightarrow> real) \<Rightarrow> globals \<Rightarrow> bool" for rnd where
  reachable_init: "reachable rnd init_globals"
| reachable_loop: "reachable rnd g \<Longrightarrow> loop rnd g inp = Some (g', d) \<Longrightarrow> reachable rnd g'"

text \<open>The invariant of the ring buffer: \<open>N\<close> slots, each a clipped current.\<close>

definition slots_ok :: "globals \<Rightarrow> bool" where
  "slots_ok g \<longleftrightarrow> length (current g) = N \<and> (\<forall>c\<in>set (current g). 0 \<le> c \<and> c \<le> 5 / 2)"

subsection \<open>The formulas of the specification\<close>

text \<open>
  \<open>voltage = raw * (referenceVoltage / adcMax) * probeScaleFactor\<close> and
  \<open>current = (regulatorVoltage - diodeVoltage) / resistorValue\<close>, each operation
  a float operation.
\<close>

definition spec_voltage :: "(real \<Rightarrow> real) \<Rightarrow> real \<Rightarrow> real \<Rightarrow> real \<Rightarrow> real \<Rightarrow> real" where
  "spec_voltage rnd referenceVoltage adcMax probeScaleFactor raw =
     rnd (rnd (raw * rnd (referenceVoltage / adcMax)) * rnd probeScaleFactor)"

definition spec_current :: "(real \<Rightarrow> real) \<Rightarrow> real \<Rightarrow> real \<Rightarrow> real \<Rightarrow> real" where
  "spec_current rnd regulatorVoltage diodeVoltage resistorValue =
     rnd (rnd (regulatorVoltage - diodeVoltage) / rnd resistorValue)"

section \<open>Properties of the rounding\<close>

text \<open>
  Rounding to binary32 is monotone on the non-negative reals: within one binade it is
  rounding to an integer multiple of the spacing, and the boundary between two binades
  is a value of both.
\<close>

lemma rne_of_int: "rne (of_int n) = n"
  by (simp add: rne_def)

lemma rne_bounds: "\<lfloor>y\<rfloor> \<le> rne y \<and> rne y \<le> \<lfloor>y\<rfloor> + 1"
  by (simp add: rne_def Let_def)

lemma rne_mono: "x \<le> y \<Longrightarrow> rne x \<le> rne y"
proof -
  assume xy: "x \<le> y"
  then have f: "\<lfloor>x\<rfloor> \<le> \<lfloor>y\<rfloor>" by (rule floor_mono)
  show ?thesis
  proof (cases "\<lfloor>x\<rfloor> = \<lfloor>y\<rfloor>")
    case True
    with xy have "x - of_int \<lfloor>x\<rfloor> \<le> y - of_int \<lfloor>y\<rfloor>" by simp
    with True show ?thesis by (auto simp: rne_def Let_def)
  next
    case False
    with f have "\<lfloor>x\<rfloor> + 1 \<le> \<lfloor>y\<rfloor>" by simp
    with rne_bounds [of x] rne_bounds [of y] show ?thesis by linarith
  qed
qed

lemma ulp_exp_upper:
  assumes "0 \<le> x"
  shows "x * 2 ^ 126 < 2 ^ (ulp_exp x + 1)"
proof -
  define n where "n = \<lfloor>\<bar>x\<bar> * 2 ^ 126\<rfloor>"
  have k: "ulp_exp x = nat (bitlen n) - 1"
    by (simp only: ulp_exp_def n_def)
  have "bitlen n \<le> int (ulp_exp x + 1)"
    unfolding k by linarith
  then have "n < 2 ^ nat (int (ulp_exp x + 1))"
    by (simp only: bitlen_le_iff_power)
  then have "n < 2 ^ (ulp_exp x + 1)"
    by (simp only: nat_int)
  then have "\<bar>x\<bar> * 2 ^ 126 < of_int (2 ^ (ulp_exp x + 1))"
    unfolding n_def by (simp only: floor_less_iff)
  then have "\<bar>x\<bar> * 2 ^ 126 < 2 ^ (ulp_exp x + 1)"
    by (simp only: of_int_power of_int_numeral)
  with assms show ?thesis by (simp only: abs_of_nonneg)
qed

lemma ulp_exp_lower:
  assumes "0 \<le> x" and "1 \<le> ulp_exp x"
  shows "2 ^ ulp_exp x \<le> x * 2 ^ 126"
proof -
  define n where "n = \<lfloor>\<bar>x\<bar> * 2 ^ 126\<rfloor>"
  have k: "ulp_exp x = nat (bitlen n) - 1"
    by (simp only: ulp_exp_def n_def)
  from assms(2) have "int (ulp_exp x + 1) \<le> bitlen n"
    unfolding k by linarith
  then have "2 ^ (nat (int (ulp_exp x + 1)) - 1) \<le> n"
    by (simp only: bitlen_ge_iff_power) linarith
  then have "2 ^ ulp_exp x \<le> n"
    by (simp only: nat_int add_diff_cancel_right')
  then have "of_int (2 ^ ulp_exp x) \<le> \<bar>x\<bar> * 2 ^ 126"
    unfolding n_def by (simp only: le_floor_iff)
  then have "2 ^ ulp_exp x \<le> \<bar>x\<bar> * 2 ^ 126"
    by (simp only: of_int_power of_int_numeral)
  with assms show ?thesis by (simp only: abs_of_nonneg)
qed

lemma ulp_exp_mono:
  assumes "0 \<le> x" and "x \<le> y"
  shows "ulp_exp x \<le> ulp_exp y"
proof (cases "1 \<le> ulp_exp x")
  case True
  have "(2::real) ^ ulp_exp x \<le> x * 2 ^ 126"
    using assms(1) True by (rule ulp_exp_lower)
  also have "\<dots> \<le> y * 2 ^ 126" using assms(2) by simp
  also have "\<dots> < 2 ^ (ulp_exp y + 1)"
    using assms by (intro ulp_exp_upper) simp
  finally have "ulp_exp x < ulp_exp y + 1"
    by (simp only: power_strict_increasing_iff [of "2::real"] one_less_numeral_iff semiring_norm)
  then show ?thesis by simp
next
  case False
  then show ?thesis by simp
qed

lemma round32_quantum: "round32 x = of_int (rne (x / quantum (ulp_exp x))) * quantum (ulp_exp x)"
  by (simp add: round32_def Let_def)

lemma quantum_pos: "0 < quantum k"
  by (simp add: quantum_def)

lemma round32_le_top:
  assumes "0 \<le> x"
  shows "round32 x \<le> 2 ^ 24 * quantum (ulp_exp x)"
proof -
  let ?k = "ulp_exp x"
  have "x * 2 ^ 126 < 2 ^ (?k + 1)" using assms by (rule ulp_exp_upper)
  then have "x / quantum ?k \<le> 2 ^ 24"
    by (simp add: quantum_def field_simps)
  then have "rne (x / quantum ?k) \<le> rne (of_int (2 ^ 24))"
    by (intro rne_mono) simp
  then have "rne (x / quantum ?k) \<le> 2 ^ 24"
    by (simp only: rne_of_int)
  then have "(of_int (rne (x / quantum ?k)) :: real) \<le> of_int (2 ^ 24)"
    by (simp only: of_int_le_iff)
  then show ?thesis
    using quantum_pos [of ?k] by (simp add: round32_quantum)
qed

lemma round32_ge_bottom:
  assumes "0 \<le> x" and "1 \<le> ulp_exp x"
  shows "2 ^ 23 * quantum (ulp_exp x) \<le> round32 x"
proof -
  let ?k = "ulp_exp x"
  have "2 ^ ?k \<le> x * 2 ^ 126" using assms by (rule ulp_exp_lower)
  then have "2 ^ 23 \<le> x / quantum ?k"
    by (simp add: quantum_def field_simps)
  then have "rne (of_int (2 ^ 23)) \<le> rne (x / quantum ?k)"
    by (intro rne_mono) simp
  then have "2 ^ 23 \<le> rne (x / quantum ?k)"
    by (simp only: rne_of_int)
  then have "(of_int (2 ^ 23) :: real) \<le> of_int (rne (x / quantum ?k))"
    by (simp only: of_int_le_iff)
  then show ?thesis
    using quantum_pos [of ?k] by (simp add: round32_quantum)
qed

lemma quantum_step: "j < k \<Longrightarrow> 2 ^ 24 * quantum j \<le> 2 ^ 23 * quantum k"
proof -
  assume "j < k"
  then have "Suc j \<le> k" by simp
  then have "(2::real) ^ Suc j \<le> 2 ^ k"
    by (intro power_increasing) simp_all
  then show ?thesis by (simp add: quantum_def field_simps)
qed

lemma round32_mono:
  assumes "0 \<le> x" and "x \<le> y"
  shows "round32 x \<le> round32 y"
proof (cases "ulp_exp x = ulp_exp y")
  case True
  have "x / quantum (ulp_exp y) \<le> y / quantum (ulp_exp y)"
    using assms(2) quantum_pos [of "ulp_exp y"] by (simp add: divide_right_mono)
  then have "rne (x / quantum (ulp_exp y)) \<le> rne (y / quantum (ulp_exp y))"
    by (rule rne_mono)
  then show ?thesis
    using quantum_pos [of "ulp_exp y"] by (simp add: round32_quantum True)
next
  case False
  with ulp_exp_mono [OF assms] have lt: "ulp_exp x < ulp_exp y" by simp
  have "round32 x \<le> 2 ^ 24 * quantum (ulp_exp x)"
    using assms(1) by (rule round32_le_top)
  also have "\<dots> \<le> 2 ^ 23 * quantum (ulp_exp y)"
    using lt by (rule quantum_step)
  also have "\<dots> \<le> round32 y"
    using assms lt by (intro round32_ge_bottom) simp_all
  finally show ?thesis .
qed

lemma round32_0: "round32 0 = 0"
  by (simp add: round32_def rne_def)

lemma round32_nonneg: "0 \<le> x \<Longrightarrow> 0 \<le> round32 x"
  using round32_mono [of 0 x] by (simp add: round32_0)


text \<open>A value with a significand below \<open>2 ^ 24\<close> is a binary32 value: rounding leaves it alone.\<close>

lemma ulp_exp_abs: "ulp_exp \<bar>x\<bar> = ulp_exp x"
  by (simp add: ulp_exp_def)

lemma quantum_add: "quantum (k + d) = 2 ^ d * quantum k"
  by (simp add: quantum_def power_add)

lemma round32_exact:
  assumes m: "0 \<le> m" "m < 2 ^ 24"
  shows "round32 (of_int m * quantum j) = of_int m * quantum j"
proof -
  define x where "x = of_int m * quantum j"
  define k where "k = ulp_exp x"
  have x0: "0 \<le> x"
    using m(1) quantum_pos [of j] by (simp add: x_def)
  have "k \<le> j"
  proof (cases "1 \<le> k")
    case True
    have "(2::real) ^ k \<le> x * 2 ^ 126"
      unfolding k_def using x0 True [unfolded k_def] by (rule ulp_exp_lower)
    also have "x * 2 ^ 126 = of_int m * 2 ^ j / 2 ^ 23"
      by (simp add: x_def quantum_def)
    also have "\<dots> < 2 ^ 24 * 2 ^ j / 2 ^ 23"
    proof -
      have "(of_int m :: real) < of_int (2 ^ 24)"
        using m(2) by (simp only: of_int_less_iff)
      then have "(of_int m :: real) < 2 ^ 24" by simp
      then show ?thesis by (simp add: divide_strict_right_mono)
    qed
    also have "\<dots> = 2 ^ (j + 1)" by simp
    finally have "k < j + 1"
      by (simp only: power_strict_increasing_iff [of "2::real"] one_less_numeral_iff semiring_norm)
    then show ?thesis by simp
  next
    case False
    then show ?thesis by simp
  qed
  then obtain d where d: "j = k + d"
    using le_Suc_ex by blast
  have q: "quantum j = 2 ^ d * quantum k"
    unfolding d by (rule quantum_add)
  have "x / quantum k = of_int (m * 2 ^ d)"
    using quantum_pos [of k] by (simp add: x_def q)
  then have "rne (x / quantum k) = m * 2 ^ d"
    by (simp only: rne_of_int)
  then have "round32 x = of_int (m * 2 ^ d) * quantum k"
    unfolding k_def by (simp only: round32_quantum)
  also have "\<dots> = x"
    by (simp add: x_def q)
  finally show ?thesis by (simp only: x_def)
qed

lemma round32_multiple:
  assumes "k \<le> 8"
  shows "round32 (5 / 2 * real k) = 5 / 2 * real k"
proof -
  have e: "of_int (1310720 * int k) * quantum 130 = 5 / 2 * real k"
    by (simp add: quantum_def)
  have "round32 (of_int (1310720 * int k) * quantum 130) = of_int (1310720 * int k) * quantum 130"
    using assms by (intro round32_exact) simp_all
  then show ?thesis unfolding e .
qed

lemma round32_2500: "round32 2500 = 2500"
proof -
  have e: "of_int 2500 * quantum 149 = 2500"
    by (simp add: quantum_def)
  have "round32 (of_int 2500 * quantum 149) = of_int 2500 * quantum 149"
    by (intro round32_exact) simp_all
  then show ?thesis unfolding e .
qed

lemma round32_keeps_bound:
  assumes "0 \<le> x" and "x \<le> b" and "round32 b = b"
  shows "0 \<le> round32 x \<and> round32 x \<le> b"
  using round32_nonneg [OF assms(1)] round32_mono [OF assms(1,2)] assms(3) by simp

text \<open>
  Evaluating the rounding at a given value: once the binade of \<open>x\<close> is known, the
  rounding is one \<open>rne\<close> at a power of two.
\<close>

lemma ulp_exp_eqI:
  assumes lo: "2 ^ k \<le> \<bar>x\<bar> * 2 ^ 126" and hi: "\<bar>x\<bar> * 2 ^ 126 < 2 * 2 ^ k" and k: "0 < k"
  shows "ulp_exp x = k"
proof -
  have a: "0 \<le> \<bar>x\<bar>" by simp
  have "\<bar>x\<bar> * 2 ^ 126 < 2 ^ (ulp_exp \<bar>x\<bar> + 1)"
    using a by (rule ulp_exp_upper)
  with lo have "(2::real) ^ k < 2 ^ (ulp_exp \<bar>x\<bar> + 1)" by simp
  then have "k < ulp_exp \<bar>x\<bar> + 1"
    by (simp only: power_strict_increasing_iff [of "2::real"] one_less_numeral_iff semiring_norm)
  then have le: "k \<le> ulp_exp \<bar>x\<bar>" by simp
  with k have "1 \<le> ulp_exp \<bar>x\<bar>" by simp
  with a have "(2::real) ^ ulp_exp \<bar>x\<bar> \<le> \<bar>x\<bar> * 2 ^ 126"
    by (rule ulp_exp_lower)
  also have "\<dots> < 2 ^ (k + 1)" using hi by simp
  finally have "ulp_exp \<bar>x\<bar> < k + 1"
    by (simp only: power_strict_increasing_iff [of "2::real"] one_less_numeral_iff semiring_norm)
  with le show ?thesis by (simp add: ulp_exp_abs)
qed

lemma round32_at:
  assumes "2 ^ k \<le> \<bar>x\<bar> * 2 ^ 126" and "\<bar>x\<bar> * 2 ^ 126 < 2 * 2 ^ k" and "0 < k"
  shows "round32 x = of_int (rne (x / quantum k)) * quantum k"
  using ulp_exp_eqI [OF assms] by (simp add: round32_quantum)

lemma round32_below_2:
  assumes "1 \<le> \<bar>x\<bar> * 2 ^ s" and "\<bar>x\<bar> * 2 ^ s < 2" and "s < 126"
  shows "round32 x = of_int (rne (x * 2 ^ (s + 23))) / 2 ^ (s + 23)"
proof -
  have p: "(2::real) ^ 126 = 2 ^ s * 2 ^ (126 - s)"
    using assms(3) by (simp only: power_add [symmetric]) simp
  have q: "quantum (126 - s) = 1 / 2 ^ (s + 23)"
  proof -
    have e: "(2::real) ^ 149 = 2 ^ (126 - s) * 2 ^ (s + 23)"
      using assms(3) by (simp only: power_add [symmetric]) simp
    show ?thesis unfolding quantum_def e by simp
  qed
  have "2 ^ (126 - s) * 1 \<le> 2 ^ (126 - s) * (\<bar>x\<bar> * 2 ^ s)"
    using assms(1) by (simp only: mult_le_cancel_left_pos zero_less_power zero_less_numeral)
  then have lo: "2 ^ (126 - s) \<le> \<bar>x\<bar> * 2 ^ 126"
    by (simp only: p) (simp add: ac_simps)
  have "2 ^ (126 - s) * (\<bar>x\<bar> * 2 ^ s) < 2 ^ (126 - s) * 2"
    using assms(2) by (simp only: mult_less_cancel_left_pos zero_less_power zero_less_numeral)
  then have hi: "\<bar>x\<bar> * 2 ^ 126 < 2 * 2 ^ (126 - s)"
    by (simp only: p) (simp add: ac_simps)
  have "round32 x = of_int (rne (x / quantum (126 - s))) * quantum (126 - s)"
  proof (rule round32_at [OF lo hi])
    show "0 < 126 - s" using assms(3) by simp
  qed
  then show ?thesis by (simp only: q) simp
qed

lemma round32_from_1:
  assumes "2 ^ t \<le> \<bar>x\<bar>" and "\<bar>x\<bar> < 2 * 2 ^ t" and "t \<le> 23"
  shows "round32 x = of_int (rne (x * 2 ^ (23 - t))) / 2 ^ (23 - t)"
proof -
  have q: "quantum (126 + t) = 1 / 2 ^ (23 - t)"
  proof -
    have e: "(2::real) ^ 149 = 2 ^ (126 + t) * 2 ^ (23 - t)"
      using assms(3) by (simp only: power_add [symmetric]) simp
    show ?thesis unfolding quantum_def e by simp
  qed
  have lo: "2 ^ (126 + t) \<le> \<bar>x\<bar> * 2 ^ 126"
    using assms(1) by (simp add: power_add)
  have hi: "\<bar>x\<bar> * 2 ^ 126 < 2 * 2 ^ (126 + t)"
    using assms(2) by (simp add: power_add)
  have "round32 x = of_int (rne (x / quantum (126 + t))) * quantum (126 + t)"
  proof (rule round32_at [OF lo hi])
    show "0 < 126 + t" by simp
  qed
  then show ?thesis by (simp only: q) simp
qed

lemmas round32_numeral =
  round32_below_2 [of _ 1] round32_below_2 [of _ 2] round32_below_2 [of _ 3]
  round32_below_2 [of _ 4] round32_below_2 [of _ 5] round32_below_2 [of _ 6]
  round32_below_2 [of _ 7] round32_below_2 [of _ 8]
  round32_from_1 [of 0] round32_from_1 [of 1]

lemmas float_eval = round32_numeral round32_0 rne_def Let_def

lemma round32_consts:
  "round32 (5 / 1023) = 5248005 / 2 ^ 30"
  "round32 (361 / 100) = 15141437 / 2 ^ 22"
  "round32 (11 / 10) = 9227469 / 2 ^ 23"
  "round32 (19 / 10) = 15938355 / 2 ^ 23"
  by (simp_all add: float_eval)

section \<open>Analog sampler\<close>

text \<open>Some voltages and currents of the sketch in binary32.\<close>

lemma VOLTAGE_values:
  "VOLTAGE round32 0 = 0"
  "VOLTAGE round32 1 = 9472649 / 2 ^ 29"
  "VOLTAGE round32 2 = 9472649 / 2 ^ 28"
  "VOLTAGE round32 7 = 1036071 / 2 ^ 23"
  by (simp_all add: VOLTAGE_def round32_consts float_eval)

lemma getCurrent_values:
  "getCurrent round32 0 0 = 0"
  "getCurrent round32 1 0 = 8611499 / 2 ^ 29"
  "getCurrent round32 2 0 = 8611499 / 2 ^ 28"
  "getCurrent round32 7 0 = 15070123 / 2 ^ 27"
  by (simp_all add: getCurrent_def VOLTAGE_values unclipped_current_def R_VAL_def R25_def
      round32_consts clip_def MAX_CURRENT_def float_eval)

lemmas float_eval_large = round32_from_1 [of 2] round32_from_1 [of 4] float_eval

lemma VOLTAGE_more:
  "VOLTAGE round32 3 = 14208973 / 2 ^ 28"
  "VOLTAGE round32 4 = 9472649 / 2 ^ 27"
  "VOLTAGE round32 1023 = 4731699 / 2 ^ 18"
  by (simp_all add: VOLTAGE_def round32_consts float_eval_large)

lemma unclipped_values:
  "unclipped_current round32 (VOLTAGE round32 1023) (VOLTAGE round32 0) = 8603089 / 2 ^ 19"
  "unclipped_current round32 (VOLTAGE round32 0) (VOLTAGE round32 1023) = - (8603089 / 2 ^ 19)"
  "unclipped_current round32 (VOLTAGE round32 1) (VOLTAGE round32 0) = 8611499 / 2 ^ 29"
  by (simp_all add: unclipped_current_def VOLTAGE_values VOLTAGE_more R_VAL_def R25_def
      round32_consts float_eval_large)

lemma getCurrent_4_3: "getCurrent round32 4 3 = 2152875 / 2 ^ 27"
  by (simp add: getCurrent_def VOLTAGE_more unclipped_current_def R_VAL_def R25_def
      round32_consts clip_def MAX_CURRENT_def float_eval)

text \<open>
  C1: for raw ADC readings \<open>a\<close> and \<open>b\<close> in \<open>[0, 1023]\<close>, and in fact for any pair of
  readings and any rounding of the float operations, \<open>getCurrent\<close> returns a value
  in the closed interval \<open>[0.0, MAX_CURRENT]\<close> with \<open>MAX_CURRENT = 2.5\<close>. The function
  has no error result: all it does about a current out of range is to clamp it to the
  nearer bound of the interval. The result is the current computed from the two
  readings, replaced by \<open>MAX_CURRENT\<close> when it is above \<open>MAX_CURRENT\<close> and by 0.0
  when it is negative, and returned as it is when it lies in the interval.
\<close>

theorem getCurrent_in_range:
  "0 \<le> getCurrent rnd a b \<and> getCurrent rnd a b \<le> MAX_CURRENT \<and> MAX_CURRENT = 5 / 2 \<and>
   getCurrent rnd a b =
     max 0 (min MAX_CURRENT (unclipped_current rnd (VOLTAGE rnd a) (VOLTAGE rnd b))) \<and>
   (MAX_CURRENT < unclipped_current rnd (VOLTAGE rnd a) (VOLTAGE rnd b) \<longrightarrow>
      getCurrent rnd a b = MAX_CURRENT) \<and>
   (unclipped_current rnd (VOLTAGE rnd a) (VOLTAGE rnd b) < 0 \<longrightarrow>
      getCurrent rnd a b = 0) \<and>
   (0 \<le> unclipped_current rnd (VOLTAGE rnd a) (VOLTAGE rnd b) \<and>
    unclipped_current rnd (VOLTAGE rnd a) (VOLTAGE rnd b) \<le> MAX_CURRENT \<longrightarrow>
      getCurrent rnd a b = unclipped_current rnd (VOLTAGE rnd a) (VOLTAGE rnd b))"
  by (simp add: getCurrent_def clip_def MAX_CURRENT_def Let_def)

theorem getCurrent_in_range_witness:
  "(MAX_CURRENT < unclipped_current round32 (VOLTAGE round32 1023) (VOLTAGE round32 0) \<and>
    getCurrent round32 1023 0 = MAX_CURRENT) \<and>
   (unclipped_current round32 (VOLTAGE round32 0) (VOLTAGE round32 1023) < 0 \<and>
    getCurrent round32 0 1023 = 0) \<and>
   (0 \<le> unclipped_current round32 (VOLTAGE round32 1) (VOLTAGE round32 0) \<and>
    unclipped_current round32 (VOLTAGE round32 1) (VOLTAGE round32 0) \<le> MAX_CURRENT \<and>
    getCurrent round32 1 0 = unclipped_current round32 (VOLTAGE round32 1) (VOLTAGE round32 0))"
proof -
  have over: "MAX_CURRENT < unclipped_current round32 (VOLTAGE round32 1023) (VOLTAGE round32 0)"
    by (simp add: unclipped_values MAX_CURRENT_def)
  have under: "unclipped_current round32 (VOLTAGE round32 0) (VOLTAGE round32 1023) < 0"
    by (simp add: unclipped_values)
  have inside: "0 \<le> unclipped_current round32 (VOLTAGE round32 1) (VOLTAGE round32 0) \<and>
    unclipped_current round32 (VOLTAGE round32 1) (VOLTAGE round32 0) \<le> MAX_CURRENT"
    by (simp add: unclipped_values MAX_CURRENT_def)
  show ?thesis
    using over under inside
      getCurrent_in_range [of round32 1023 0] getCurrent_in_range [of round32 0 1023]
      getCurrent_in_range [of round32 1 0]
    by blast
qed

text \<open>
  C2: \<open>getCurrent\<close> converts a raw value \<open>r\<close> to the voltage
  \<open>r * (referenceVoltage / adcMax) * probeScaleFactor\<close> with reference voltage 5,
  \<open>adcMax\<close> 1023 and probe scale factor 3.61, and the current before clipping is
  \<open>(regulatorVoltage - diodeVoltage) / resistorValue\<close> with resistor value 1.1:
  the expressions of the sketch are the formulas of the specification, operation by
  operation, for any rounding of the float operations, and in exact arithmetic they
  are the two formulas over the reals.
\<close>

theorem getCurrent_formula:
  "VOLTAGE rnd r = spec_voltage rnd 5 1023 (361 / 100) (of_int r) \<and>
   unclipped_current rnd v1 v2 = spec_current rnd v1 v2 (11 / 10) \<and>
   getCurrent rnd a b =
     clip (spec_current rnd (spec_voltage rnd 5 1023 (361 / 100) (of_int a))
                            (spec_voltage rnd 5 1023 (361 / 100) (of_int b)) (11 / 10)) \<and>
   VOLTAGE (\<lambda>x. x) r = of_int r * (5 / 1023) * (361 / 100) \<and>
   unclipped_current (\<lambda>x. x) v1 v2 = (v1 - v2) / (11 / 10)"
  by (simp add: VOLTAGE_def spec_voltage_def unclipped_current_def spec_current_def
      getCurrent_def R_VAL_def R25_def)

text \<open>
  C9: with a converted regulator voltage of 3.0 V, a converted diode voltage of 1.9 V
  (in binary32, the float nearest to 1.9) and the resistor value 1.1, the current that
  \<open>getCurrent\<close> computes before clipping is exactly 1.0, in binary32 arithmetic
  and in exact arithmetic alike.
\<close>

theorem unclipped_current_example:
  "unclipped_current round32 3 (round32 (19 / 10)) = 1 \<and>
   unclipped_current (\<lambda>x. x) 3 (19 / 10) = 1"
  by (simp add: unclipped_current_def R_VAL_def R25_def round32_consts float_eval)

section \<open>Cycle scheduler\<close>

lemma getMeter_2_50:
  "getMeter 2 50 it = Some (if even (unat it div 50) then 1 else 2, it + 1)"
proof -
  have "((ucast it :: u16) div 50) mod 2 = (if even (unat it div 50) then 0 else 1)"
    by (simp add: word_eq_iff_unsigned [where ?'a = nat] unat_div unat_mod parity_cases odd_iff_mod_2_eq_one)
  then show ?thesis by (simp add: getMeter_def)
qed

lemma getMeter_calls_2_50:
  "unat it + n < 65536 \<Longrightarrow>
   getMeter_calls n 2 50 it =
     Some (map (\<lambda>k. if even ((unat it + k) div 50) then 1 else 2) [0..<n], it + of_nat n)"
proof (induction n arbitrary: it)
  case 0
  then show ?case by simp
next
  case (Suc n)
  then have lt: "unat it < 65535" by simp
  then have u: "unat (it + 1) = Suc (unat it)"
    by (simp add: unat_word_ariths)
  have "getMeter_calls n 2 50 (it + 1) =
     Some (map (\<lambda>k. if even ((unat (it + 1) + k) div 50) then 1 else 2) [0..<n], it + 1 + of_nat n)"
    using Suc.prems u by (intro Suc.IH) simp
  then have step: "getMeter_calls n 2 50 (it + 1) =
     Some (map (\<lambda>k. if even ((unat it + Suc k) div 50) then 1 else 2) [0..<n], it + of_nat (Suc n))"
    by (simp add: u add.assoc)
  have "[0..<Suc n] = 0 # map Suc [0..<n]"
    by (simp add: upt_rec [of 0 "Suc n"] map_Suc_upt del: upt_Suc)
  then have "map (\<lambda>k. if even ((unat it + k) div 50) then 1 else 2 :: u16) [0..<Suc n] =
     (if even (unat it div 50) then 1 else 2) #
       map (\<lambda>k. if even ((unat it + Suc k) div 50) then 1 else 2) [0..<n]"
    by (simp add: comp_def del: upt_Suc)
  with step show ?case
    by (simp add: getMeter_2_50 del: upt_Suc of_nat_Suc)
qed

lemma dwell_pattern:
  "map (\<lambda>k. if even (k div 50) then 1 else 2 :: u16) [0..<150] =
     replicate 50 1 @ replicate 50 2 @ replicate 50 1"
proof (rule nth_equalityI)
  show "length (map (\<lambda>k. if even (k div 50) then 1 else 2 :: u16) [0..<150]) =
        length (replicate 50 1 @ replicate 50 2 @ replicate 50 (1 :: u16))"
    by simp
next
  fix i
  assume "i < length (map (\<lambda>k. if even (k div 50) then 1 else 2 :: u16) [0..<150])"
  then have i: "i < 150" by simp
  consider "i < 50" | "50 \<le> i" "i < 100" | "100 \<le> i" by linarith
  then show "map (\<lambda>k. if even (k div 50) then 1 else 2 :: u16) [0..<150] ! i =
             (replicate 50 1 @ replicate 50 2 @ replicate 50 1) ! i"
  proof cases
    case 1
    then show ?thesis using i by (simp add: nth_append)
  next
    case 2
    then have "i div 50 = 1" by simp
    then show ?thesis using i 2 by (simp add: nth_append)
  next
    case 3
    then have "i div 50 = 2" using i by simp
    then show ?thesis using i 3 by (simp add: nth_append)
  qed
qed

text \<open>
  C5: starting from iteration counter 0, 150 successive calls \<open>getMeter(2, 50)\<close>
  return mode 1 on calls 0 to 49, mode 2 on calls 50 to 99 and mode 1 on calls 100 to
  149, and leave the counter at 150; every call, from any counter, increments the
  counter by exactly 1.
\<close>

theorem getMeter_dwell_schedule:
  "getMeter_calls 150 2 50 0 = Some (replicate 50 1 @ replicate 50 2 @ replicate 50 1, 150) \<and>
   map_option snd (getMeter 2 50 it) = Some (it + 1)"
  using getMeter_calls_2_50 [of 0 150] dwell_pattern
  by (simp add: getMeter_2_50)

text \<open>
  C6: for every value of the 16-bit counter \<open>iter\<close>, the negative ones it takes after
  wrapping around at 32767 included, \<open>getMeter(num, dwell)\<close> with \<open>num \<ge> 1\<close> and
  \<open>dwell \<ge> 1\<close> returns a value in \<open>[1, num]\<close> and increments the counter.
\<close>

theorem getMeter_in_range:
  "1 \<le> num \<Longrightarrow> 1 \<le> dwell \<Longrightarrow>
   \<exists>v. getMeter num dwell it = Some (v, it + 1) \<and> 1 \<le> v \<and> v \<le> num"
proof -
  assume "1 \<le> num" and "1 \<le> dwell"
  then have n: "num \<noteq> 0" and d: "dwell \<noteq> 0" by auto
  let ?m = "((ucast it :: u16) div dwell) mod num"
  have lt: "unat ?m < unat num"
    using n by (simp add: unat_mod unat_gt_0)
  have "unat num < 65536" using unsigned_less [of num, where ?'a = nat] by simp
  with lt have u: "unat (?m + 1) = unat ?m + 1"
    by (simp add: unat_word_ariths)
  have "1 \<le> ?m + 1" "?m + 1 \<le> num"
    using lt u by (simp_all add: word_le_nat_alt)
  then show ?thesis using n d by (simp add: getMeter_def)
qed

theorem getMeter_in_range_witness:
  "(1 :: u16) \<le> 2 \<and> (1 :: u16) \<le> 50 \<and>
   (\<exists>v. getMeter 2 50 (- 32768) = Some (v, - 32768 + 1) \<and> 1 \<le> v \<and> v \<le> 2) \<and>
   sint (- 32768 :: s16) = - 32768 \<and> sint (32767 + 1 :: s16) = - 32768"
  using getMeter_in_range [of 2 50 "- 32768"] by simp

section \<open>Mode selector\<close>

text \<open>
  C7: \<open>getSelector\<close> maps the two active-low pins to a 2-bit value, bit 1 from
  SWITCH2 and bit 0 from SWITCH1: (HIGH, HIGH) gives 0, (HIGH, LOW) gives 1,
  (LOW, HIGH) gives 2 and (LOW, LOW) gives 3. The main loop treats selector value 3
  as value 1: it chooses meter 1 without touching the counter, updates the power
  meter, and does in all what it does with the switches at (HIGH, LOW).
\<close>

theorem getSelector_table:
  "getSelector HIGH HIGH = 0 \<and> getSelector HIGH LOW = 1 \<and>
   getSelector LOW HIGH = 2 \<and> getSelector LOW LOW = 3 \<and>
   choose_meter 3 it = Some (1, it) \<and> choose_meter 1 it = Some (1, it) \<and>
   loop rnd (g\<lparr>iter := it\<rparr>) (inp\<lparr>switch2 := LOW, switch1 := LOW\<rparr>) =
     Some (case updatePower rnd (g\<lparr>iter := it\<rparr>) (adc0 inp) (adc1 inp) of
             (g', avg, val) \<Rightarrow> (g', Power avg val)) \<and>
   loop rnd g (inp\<lparr>switch2 := LOW, switch1 := LOW\<rparr>) =
     loop rnd g (inp\<lparr>switch2 := HIGH, switch1 := LOW\<rparr>)"
  by (simp add: getSelector_def choose_meter_def loop_def show_meter_def)

section \<open>Temperature reader\<close>

text \<open>
  C8: for every raw value of the temperature sensor, \<open>getTemperature\<close> returns a
  value in \<open>[MIN_TEMP, MAX_TEMP]\<close>, that is in \<open>[1.0, 99.0]\<close>; a raw value inside the
  range is returned unchanged, a raw value below it gives \<open>MIN_TEMP\<close> and one above
  it gives \<open>MAX_TEMP\<close>. The function has no error result.
\<close>

theorem getTemperature_clamped:
  "MIN_TEMP = 1 \<and> MAX_TEMP = 99 \<and>
   MIN_TEMP \<le> getTemperature raw \<and> getTemperature raw \<le> MAX_TEMP \<and>
   (MIN_TEMP \<le> raw \<and> raw \<le> MAX_TEMP \<longrightarrow> getTemperature raw = raw) \<and>
   (raw < MIN_TEMP \<longrightarrow> getTemperature raw = MIN_TEMP) \<and>
   (MAX_TEMP < raw \<longrightarrow> getTemperature raw = MAX_TEMP)"
  by (simp add: getTemperature_def MIN_TEMP_def MAX_TEMP_def Let_def)

theorem getTemperature_clamped_witness:
  "(MIN_TEMP \<le> 25 \<and> 25 \<le> MAX_TEMP \<and> getTemperature 25 = 25) \<and>
   (- 127 < MIN_TEMP \<and> getTemperature (- 127) = 1) \<and>
   (MAX_TEMP < 150 \<and> getTemperature 150 = 99)"
  using getTemperature_clamped [of 25] getTemperature_clamped [of "- 127"]
    getTemperature_clamped [of 150]
  by simp

section \<open>Current filter\<close>

lemma sum_slots_foldl:
  "N \<le> length cur \<Longrightarrow>
   sum_slots rnd cur i acc = foldl (\<lambda>a c. rnd (a + c)) acc (drop i (take N cur))"
proof (induction rnd cur i acc rule: sum_slots.induct)
  case (1 rnd cur i acc)
  show ?case
  proof (cases "i < N")
    case True
    with "1.prems" have "i < length (take N cur)" by simp
    then have "drop i (take N cur) = take N cur ! i # drop (Suc i) (take N cur)"
      by (rule Cons_nth_drop_Suc [symmetric])
    with True have d: "drop i (take N cur) = cur ! i # drop (i + 1) (take N cur)"
      by simp
    have "sum_slots rnd cur i acc = sum_slots rnd cur (i + 1) (rnd (acc + cur ! i))"
      using True by (subst sum_slots.simps) simp
    also have "\<dots> = foldl (\<lambda>a c. rnd (a + c)) (rnd (acc + cur ! i)) (drop (i + 1) (take N cur))"
      using True "1.prems" by (rule "1.IH")
    finally show ?thesis by (simp add: d)
  next
    case False
    then have "sum_slots rnd cur i acc = acc"
      by (subst sum_slots.simps) simp
    with False show ?thesis by simp
  qed
qed

lemma sum_slots_all:
  "length cur = N \<Longrightarrow> sum_slots rnd cur 0 0 = foldl (\<lambda>a c. rnd (a + c)) 0 cur"
  by (simp add: sum_slots_foldl)

lemma store_state:
  "fst (store_and_average rnd g v) =
     g\<lparr>indx := indx g + 1, current := (current g)[unat (indx g) mod N := v]\<rparr>"
  by (simp add: store_and_average_def Let_def)

lemma store_avg:
  "fst (snd (store_and_average rnd g v)) =
     rnd (sum_slots rnd ((current g)[unat (indx g) mod N := v]) 0 0 / of_nat N)"
  by (simp add: store_and_average_def Let_def)

lemma store_val:
  "snd (snd (store_and_average rnd g v)) =
     float_to_int (rnd (fst (snd (store_and_average rnd g v)) * 1000))"
  by (simp add: store_and_average_def Let_def)

lemma push_samples_append:
  "push_samples rnd g (xs @ ys) = push_samples rnd (push_samples rnd g xs) ys"
  by (induction xs arbitrary: g) simp_all

lemma push_samples_indx: "indx (push_samples rnd g xs) = indx g + of_nat (length xs)"
  by (induction xs arbitrary: g) (simp_all add: store_state)

lemma push_samples_length: "length (current (push_samples rnd g xs)) = length (current g)"
  by (induction xs arbitrary: g) (simp_all add: store_state)

lemma slot_of: "unat (w + of_nat n :: u16) mod N = (unat w + n) mod N"
proof -
  have "unat (w + of_nat n) = (unat w + n mod 65536) mod 65536"
    by (simp add: unat_word_ariths unat_of_nat)
  also have "\<dots> = (unat w + n) mod 65536"
    by (simp add: mod_add_right_eq)
  finally have "unat (w + of_nat n) mod 8 = ((unat w + n) mod 65536) mod 8"
    by simp
  also have "\<dots> = (unat w + n) mod 8"
    by (rule mod_mod_cancel) simp
  finally show ?thesis by (simp add: N_def)
qed

lemma push_samples_slots:
  assumes "length (current g) = N"
  shows "k < length xs \<Longrightarrow> length xs \<le> k + N \<Longrightarrow>
    current (push_samples rnd g xs) ! ((unat (indx g) + k) mod N) = xs ! k"
proof (induction xs arbitrary: k rule: rev_induct)
  case Nil
  then show ?case by simp
next
  case (snoc x xs)
  let ?g = "push_samples rnd g xs"
  have len: "length (current ?g) = N"
    using assms by (simp add: push_samples_length)
  have w: "unat (indx ?g) mod N = (unat (indx g) + length xs) mod N"
    by (simp add: push_samples_indx slot_of)
  have cur: "current (push_samples rnd g (xs @ [x])) =
    (current ?g)[(unat (indx g) + length xs) mod N := x]"
    by (simp add: push_samples_append store_state w)
  have N: "0 < N" by (simp add: N_def)
  show ?case
  proof (cases "k = length xs")
    case True
    then show ?thesis using len N by (simp add: cur)
  next
    case False
    with snoc.prems have k: "k < length xs" "length xs \<le> k + N" by simp_all
    have "(unat (indx g) + k) mod N \<noteq> (unat (indx g) + length xs) mod N"
    proof
      assume "(unat (indx g) + k) mod N = (unat (indx g) + length xs) mod N"
      then have "(unat (indx g) + length xs) mod N = (unat (indx g) + k) mod N"
        by simp
      moreover have "unat (indx g) + k \<le> unat (indx g) + length xs"
        using k by simp
      ultimately obtain q where "unat (indx g) + length xs = unat (indx g) + k + N * q"
        by (rule mod_eq_nat1E)
      then have q: "length xs = k + N * q" by simp
      with k(1) have "0 < q" by (cases q) simp_all
      then have "N \<le> N * q" by simp
      with q k(2) snoc.prems(2) show False by simp
    qed
    then have "current (push_samples rnd g (xs @ [x])) ! ((unat (indx g) + k) mod N) =
      current ?g ! ((unat (indx g) + k) mod N)"
      by (simp add: cur)
    also have "\<dots> = xs ! k" using k by (rule snoc.IH)
    finally show ?thesis using k by (simp add: nth_append)
  qed
qed

lemma push_samples_rotate:
  assumes len: "length (current g) = N" and n: "N \<le> length xs"
  shows "rotate (unat (indx (push_samples rnd g xs)) mod N) (current (push_samples rnd g xs)) =
    drop (length xs - N) xs"
proof (rule nth_equalityI)
  let ?g = "push_samples rnd g xs"
  have l: "length (current ?g) = N" using len by (simp add: push_samples_length)
  show "length (rotate (unat (indx ?g) mod N) (current ?g)) = length (drop (length xs - N) xs)"
    using l n by simp
  fix j
  assume "j < length (rotate (unat (indx ?g) mod N) (current ?g))"
  then have j: "j < N" using l by simp
  have "rotate (unat (indx ?g) mod N) (current ?g) ! j =
    current ?g ! ((unat (indx ?g) mod N + j) mod N)"
    using j l by (simp add: nth_rotate)
  also have "(unat (indx ?g) mod N + j) mod N = (unat (indx g) + (length xs - N + j)) mod N"
  proof -
    have "(unat (indx ?g) mod N + j) mod N = ((unat (indx g) + length xs) mod N + j) mod N"
      by (simp only: push_samples_indx slot_of)
    also have "\<dots> = (unat (indx g) + length xs + j) mod N"
      by (simp only: mod_add_left_eq)
    also have "unat (indx g) + length xs + j = unat (indx g) + (length xs - N + j) + N"
      using n by simp
    also have "(unat (indx g) + (length xs - N + j) + N) mod N =
      (unat (indx g) + (length xs - N + j)) mod N"
      by (simp only: mod_add_self2)
    finally show ?thesis .
  qed
  also have "current ?g ! ((unat (indx g) + (length xs - N + j)) mod N) = xs ! (length xs - N + j)"
    using len j n by (intro push_samples_slots) simp_all
  finally show "rotate (unat (indx ?g) mod N) (current ?g) ! j = drop (length xs - N) xs ! j"
    using n by simp
qed

lemma sum_list_rotate: "sum_list (rotate n xs) = sum_list (xs :: real list)"
proof -
  let ?m = "n mod length xs"
  have "sum_list (rotate n xs) = sum_list (drop ?m xs) + sum_list (take ?m xs)"
    by (simp add: rotate_drop_take)
  also have "\<dots> = sum_list (take ?m xs @ drop ?m xs)"
    by (simp only: sum_list_append add.commute)
  also have "\<dots> = sum_list xs"
    by (simp only: append_take_drop_id)
  finally show ?thesis .
qed

lemma foldl_exact: "foldl (\<lambda>a c. a + c) a cs = a + sum_list (cs :: real list)"
  by (induction cs arbitrary: a) simp_all

lemma last_average_eq:
  assumes "xs \<noteq> []"
  shows "last_average rnd g xs =
    rnd (sum_slots rnd (current (push_samples rnd g xs)) 0 0 / of_nat N)"
proof -
  have "push_samples rnd g xs = push_samples rnd g (butlast xs @ [last xs])"
    using assms by simp
  also have "\<dots> = fst (store_and_average rnd (push_samples rnd g (butlast xs)) (last xs))"
    by (simp only: push_samples_append push_samples.simps)
  finally show ?thesis
    by (simp add: last_average_def store_avg store_state)
qed

lemma foldl_bounded:
  assumes "\<forall>c\<in>set cs. 0 \<le> c \<and> c \<le> 5 / 2"
    and "0 \<le> a" and "a \<le> 5 / 2 * real m" and "m + length cs \<le> 8"
  shows "0 \<le> foldl (\<lambda>a c. round32 (a + c)) a cs \<and>
         foldl (\<lambda>a c. round32 (a + c)) a cs \<le> 5 / 2 * real (m + length cs)"
  using assms
proof (induction cs arbitrary: a m)
  case Nil
  then show ?case by simp
next
  case (Cons c cs)
  have c: "0 \<le> c" "c \<le> 5 / 2" using Cons.prems(1) by simp_all
  have "0 \<le> a + c" using Cons.prems(2) c by simp
  moreover have "a + c \<le> 5 / 2 * real (Suc m)"
    using Cons.prems(3) c by (simp add: algebra_simps)
  moreover have "round32 (5 / 2 * real (Suc m)) = 5 / 2 * real (Suc m)"
    using Cons.prems(4) by (intro round32_multiple) simp
  ultimately have r: "0 \<le> round32 (a + c) \<and> round32 (a + c) \<le> 5 / 2 * real (Suc m)"
    by (rule round32_keeps_bound)
  have "0 \<le> foldl (\<lambda>a c. round32 (a + c)) (round32 (a + c)) cs \<and>
        foldl (\<lambda>a c. round32 (a + c)) (round32 (a + c)) cs \<le> 5 / 2 * real (Suc m + length cs)"
    using Cons.prems(1,4) r by (intro Cons.IH) simp_all
  then show ?case by simp
qed

lemma float_to_int_bounds:
  assumes "0 \<le> x" and "x \<le> 2500"
  shows "\<exists>v. float_to_int x = Some v \<and> 0 \<le> v \<and> v \<le> 2500"
proof -
  have "0 \<le> \<lfloor>x\<rfloor>" using assms(1) by simp
  moreover have "\<lfloor>x\<rfloor> \<le> 2500" using assms(2) by (simp add: floor_le_iff)
  ultimately show ?thesis using assms(1) by (simp add: float_to_int_def)
qed

lemma store_and_average_ok:
  assumes ok: "slots_ok g" and v: "0 \<le> v" "v \<le> 5 / 2"
  shows "slots_ok (fst (store_and_average round32 g v))"
    and "\<exists>n. snd (snd (store_and_average round32 g v)) = Some n \<and> 0 \<le> n \<and> n \<le> 2500"
proof -
  let ?cur = "(current g)[unat (indx g) mod N := v]"
  have len: "length ?cur = N" using ok by (simp add: slots_ok_def)
  have "set ?cur \<subseteq> insert v (set (current g))"
    by (rule set_update_subset_insert)
  then have rng: "\<forall>c\<in>set ?cur. 0 \<le> c \<and> c \<le> 5 / 2"
    using ok v by (auto simp: slots_ok_def)
  show "slots_ok (fst (store_and_average round32 g v))"
    using len rng by (simp add: store_state slots_ok_def)
  have "0 \<le> foldl (\<lambda>a c. round32 (a + c)) 0 ?cur \<and>
        foldl (\<lambda>a c. round32 (a + c)) 0 ?cur \<le> 5 / 2 * real (0 + length ?cur)"
    using rng len by (intro foldl_bounded) (simp_all add: N_def)
  then have s: "0 \<le> sum_slots round32 ?cur 0 0" "sum_slots round32 ?cur 0 0 \<le> 20"
    using len by (simp_all add: sum_slots_all N_def)
  let ?avg = "fst (snd (store_and_average round32 g v))"
  have "0 \<le> sum_slots round32 ?cur 0 0 / of_nat N"
    using s(1) by simp
  moreover have "sum_slots round32 ?cur 0 0 / of_nat N \<le> 5 / 2"
    using s(2) by (simp add: N_def)
  moreover have "round32 (5 / 2) = 5 / 2"
    using round32_multiple [of 1] by simp
  ultimately have "0 \<le> round32 (sum_slots round32 ?cur 0 0 / of_nat N) \<and>
    round32 (sum_slots round32 ?cur 0 0 / of_nat N) \<le> 5 / 2"
    by (rule round32_keeps_bound)
  then have avg: "0 \<le> ?avg" "?avg \<le> 5 / 2"
    by (simp_all add: store_avg)
  have "0 \<le> ?avg * 1000" using avg(1) by simp
  moreover have "?avg * 1000 \<le> 2500" using avg(2) by simp
  ultimately have "0 \<le> round32 (?avg * 1000) \<and> round32 (?avg * 1000) \<le> 2500"
    using round32_2500 by (rule round32_keeps_bound)
  then have "\<exists>n. float_to_int (round32 (?avg * 1000)) = Some n \<and> 0 \<le> n \<and> n \<le> 2500"
    by (intro float_to_int_bounds) simp_all
  then show "\<exists>n. snd (snd (store_and_average round32 g v)) = Some n \<and> 0 \<le> n \<and> n \<le> 2500"
    by (simp only: store_val)
qed

lemma getCurrent_bounds: "0 \<le> getCurrent rnd a b" "getCurrent rnd a b \<le> 5 / 2"
  by (simp_all add: getCurrent_def clip_def MAX_CURRENT_def Let_def)

lemma loop_slots_ok:
  assumes "slots_ok g" and "loop round32 g inp = Some (g', d)"
  shows "slots_ok g'"
proof -
  obtain meter it where c: "choose_meter (getSelector (switch2 inp) (switch1 inp)) (iter g) = Some (meter, it)"
    and s: "show_meter round32 meter (g\<lparr>iter := it\<rparr>) inp = (g', d)"
    using assms(2) by (auto simp: loop_def Let_def split: option.splits)
  have ok: "slots_ok (g\<lparr>iter := it\<rparr>)"
    using assms(1) by (simp add: slots_ok_def)
  show ?thesis
  proof (cases "meter = 1")
    case True
    then have "g' = fst (store_and_average round32 (g\<lparr>iter := it\<rparr>)
        (getCurrent round32 (adc0 inp) (adc1 inp)))"
      using s by (auto simp: show_meter_def updatePower_def split: prod.splits)
    then show ?thesis
      using store_and_average_ok(1) [OF ok getCurrent_bounds] by simp
  next
    case False
    then have "g' = g\<lparr>iter := it\<rparr>"
      using s by (auto simp: show_meter_def split: if_splits)
    then show ?thesis using ok by simp
  qed
qed

lemma reachable_slots_ok: "reachable round32 g \<Longrightarrow> slots_ok g"
proof (induction rule: reachable.induct)
  case reachable_init
  then show ?case by (simp add: slots_ok_def init_globals_def)
next
  case (reachable_loop g inp g' d)
  from reachable_loop.IH reachable_loop.hyps(2) show ?case by (rule loop_slots_ok)
qed

lemma full_cycle:
  assumes "length (current g) = N" and "length xs = N" and "unat (indx g) mod N = 0"
  shows "current (push_samples rnd g xs) = xs"
proof -
  have "unat (indx (push_samples rnd g xs)) mod N = (unat (indx g) + N) mod N"
    by (simp only: push_samples_indx slot_of assms(2))
  also have "\<dots> = 0" using assms(3) by simp
  finally have r: "unat (indx (push_samples rnd g xs)) mod N = 0" .
  have "rotate (unat (indx (push_samples rnd g xs)) mod N) (current (push_samples rnd g xs)) =
    drop (length xs - N) xs"
    using assms(1) by (rule push_samples_rotate) (simp add: assms(2))
  then show ?thesis by (simp add: r assms(2))
qed

lemma last_average_full:
  assumes "length xs = N"
  shows "last_average rnd init_globals xs = rnd (foldl (\<lambda>a c. rnd (a + c)) 0 xs / 8)"
proof -
  have ne: "xs \<noteq> []" using assms by (auto simp: N_def)
  have "current (push_samples rnd init_globals xs) = xs"
    using _ assms by (rule full_cycle) (simp_all add: init_globals_def)
  then show ?thesis
    using assms by (simp add: last_average_eq [OF ne] sum_slots_all N_def)
qed

text \<open>
  C3, as stated, fails in binary32: after the readings (1, 0), (2, 0) and six times
  (0, 0) the sum of the two non-zero samples needs 25 significant bits, the float sum
  drops the last one, and the averaged current differs from the arithmetic mean of the
  eight samples (which no binary32 value equals).
\<close>

theorem ring_buffer_mean_counterexample:
  "getCurrent round32 0 0 = 0 \<and>
   N \<le> length [getCurrent round32 1 0, getCurrent round32 2 0, 0, 0, 0, 0, 0, 0] \<and>
   last_average round32 init_globals
     [getCurrent round32 1 0, getCurrent round32 2 0, 0, 0, 0, 0, 0, 0] = 25229 / 2 ^ 22 \<and>
   sum_list [getCurrent round32 1 0, getCurrent round32 2 0, 0, 0, 0, 0, 0, 0] / of_nat N =
     25834497 / 2 ^ 32 \<and>
   last_average round32 init_globals
     [getCurrent round32 1 0, getCurrent round32 2 0, 0, 0, 0, 0, 0, 0] \<noteq>
   sum_list [getCurrent round32 1 0, getCurrent round32 2 0, 0, 0, 0, 0, 0, 0] / of_nat N"
proof -
  have "last_average round32 init_globals
     [8611499 / 2 ^ 29, 8611499 / 2 ^ 28, 0, 0, 0, 0, 0, 0] = 25229 / 2 ^ 22"
    by (subst last_average_full) (simp_all add: N_def float_eval)
  then show ?thesis
    by (simp add: getCurrent_values N_def)
qed

text \<open>
  C3, amended: for every sequence of \<open>N = 8\<close> or more samples pushed from any state
  of the write index, its wraparound at 65536 included, the ring buffer holds exactly
  the last \<open>N\<close> pushed samples (read circularly from the next write position, oldest
  first), and the averaged current is the float sum of the slots, accumulated from
  slot 0 to slot \<open>N - 1\<close> with a rounding after each addition, divided by \<open>N\<close> and
  rounded; in exact arithmetic this is the unweighted arithmetic mean of the last
  \<open>N\<close> pushed samples.
\<close>

theorem ring_buffer_average:
  assumes "length (current g) = N" and "N \<le> length xs"
  shows "N = 8 \<and>
    rotate (unat (indx (push_samples rnd g xs)) mod N) (current (push_samples rnd g xs)) =
      drop (length xs - N) xs \<and>
    last_average rnd g xs =
      rnd (foldl (\<lambda>a c. rnd (a + c)) 0 (current (push_samples rnd g xs)) / 8) \<and>
    last_average (\<lambda>x. x) g xs = sum_list (drop (length xs - N) xs) / 8"
proof -
  have ne: "xs \<noteq> []" using assms(2) by (auto simp: N_def)
  have len: "length (current (push_samples r g xs)) = N" for r
    using assms(1) by (simp add: push_samples_length)
  have rot: "rotate (unat (indx (push_samples r g xs)) mod N) (current (push_samples r g xs)) =
      drop (length xs - N) xs" for r
    using assms by (rule push_samples_rotate)
  have avg: "last_average r g xs =
      r (foldl (\<lambda>a c. r (a + c)) 0 (current (push_samples r g xs)) / 8)" for r
    using len [of r] by (simp add: last_average_eq [OF ne] sum_slots_all N_def)
  have "last_average (\<lambda>x. x) g xs = sum_list (current (push_samples (\<lambda>x. x) g xs)) / 8"
    by (simp add: avg foldl_exact)
  also have "sum_list (current (push_samples (\<lambda>x. x) g xs)) =
    sum_list (rotate (unat (indx (push_samples (\<lambda>x. x) g xs)) mod N)
      (current (push_samples (\<lambda>x. x) g xs)))"
    by (simp only: sum_list_rotate)
  also have "\<dots> = sum_list (drop (length xs - N) xs)"
    by (simp only: rot)
  finally show ?thesis
    using rot [of rnd] avg [of rnd] by (simp add: N_def)
qed

theorem ring_buffer_average_witness:
  "length (current (init_globals\<lparr>indx := 65533\<rparr>)) = N \<and>
   N \<le> length [1 / 8, 2 / 8, 3 / 8, 4 / 8, 5 / 8, 6 / 8, 7 / 8, 1, 9 / 8 :: real] \<and>
   rotate (unat (indx (push_samples round32 (init_globals\<lparr>indx := 65533\<rparr>)
       [1 / 8, 2 / 8, 3 / 8, 4 / 8, 5 / 8, 6 / 8, 7 / 8, 1, 9 / 8])) mod N)
     (current (push_samples round32 (init_globals\<lparr>indx := 65533\<rparr>)
       [1 / 8, 2 / 8, 3 / 8, 4 / 8, 5 / 8, 6 / 8, 7 / 8, 1, 9 / 8])) =
     [2 / 8, 3 / 8, 4 / 8, 5 / 8, 6 / 8, 7 / 8, 1, 9 / 8] \<and>
   last_average (\<lambda>x. x) (init_globals\<lparr>indx := 65533\<rparr>)
     [1 / 8, 2 / 8, 3 / 8, 4 / 8, 5 / 8, 6 / 8, 7 / 8, 1, 9 / 8] = 11 / 16"
proof -
  define xs where "xs = [1 / 8, 2 / 8, 3 / 8, 4 / 8, 5 / 8, 6 / 8, 7 / 8, 1, 9 / 8 :: real]"
  define g where "g = init_globals\<lparr>indx := 65533\<rparr>"
  have h1: "length (current g) = N"
    by (simp add: g_def init_globals_def)
  have h2: "N \<le> length xs"
    by (simp add: N_def xs_def)
  have d: "drop (length xs - N) xs = [2 / 8, 3 / 8, 4 / 8, 5 / 8, 6 / 8, 7 / 8, 1, 9 / 8]"
    by (simp add: N_def xs_def)
  have s: "sum_list [2 / 8, 3 / 8, 4 / 8, 5 / 8, 6 / 8, 7 / 8, 1, 9 / 8 :: real] / 8 = 11 / 16"
    by simp
  from ring_buffer_average [OF h1 h2, of round32]
  have "rotate (unat (indx (push_samples round32 g xs)) mod N) (current (push_samples round32 g xs)) =
      [2 / 8, 3 / 8, 4 / 8, 5 / 8, 6 / 8, 7 / 8, 1, 9 / 8]"
    and "last_average (\<lambda>x. x) g xs = 11 / 16"
    by (simp_all only: d s)
  with h1 h2 show ?thesis
    unfolding xs_def g_def by (intro conjI)
qed

lemma foldl_replicate_exact:
  assumes "\<forall>k. 1 \<le> k \<and> k \<le> j + n \<longrightarrow> rnd (real k * v) = real k * v"
  shows "foldl (\<lambda>a c. rnd (a + c)) (real j * v) (replicate n v) = real (j + n) * v"
  using assms
proof (induction n arbitrary: j)
  case 0
  then show ?case by simp
next
  case (Suc n)
  have "rnd (real (Suc j) * v) = real (Suc j) * v"
    using Suc.prems by (simp del: of_nat_Suc)
  then have s: "rnd (real j * v + v) = real (Suc j) * v"
    by (simp add: algebra_simps)
  have "foldl (\<lambda>a c. rnd (a + c)) (real (Suc j) * v) (replicate n v) = real (Suc j + n) * v"
    using Suc.prems by (intro Suc.IH) simp
  then show ?case by (simp add: s del: of_nat_Suc)
qed

lemma push_replicate:
  assumes "length (current g) = N"
  shows "current (push_samples rnd g (replicate N v)) = replicate N v"
proof -
  let ?cur = "current (push_samples rnd g (replicate N v))"
  have len: "length ?cur = N" using assms by (simp add: push_samples_length)
  have "rotate (unat (indx (push_samples rnd g (replicate N v))) mod N) ?cur =
    drop (length (replicate N v) - N) (replicate N v)"
    using assms by (rule push_samples_rotate) simp
  then have "set ?cur = set (replicate N v)"
    by (metis set_rotate diff_self_eq_0 drop0 length_replicate)
  then have "\<forall>y\<in>set ?cur. y = v" by simp
  then have "replicate (length ?cur) v = ?cur" by (rule replicate_length_same)
  then show ?thesis by (simp only: len)
qed

lemma repeated_exact:
  assumes "length (current g) = N"
    and "\<forall>k. 1 \<le> k \<and> k \<le> 8 \<longrightarrow> rnd (real k * v) = real k * v"
  shows "last_average rnd g (replicate N v) = v"
proof -
  have ne: "replicate N v \<noteq> []" by (simp add: N_def)
  have "foldl (\<lambda>a c. rnd (a + c)) (real 0 * v) (replicate 8 v) = real (0 + 8) * v"
    using assms(2) by (intro foldl_replicate_exact) simp
  then have f: "foldl (\<lambda>a c. rnd (a + c)) 0 (replicate 8 v) = 8 * v" by simp
  have "1 \<le> (1::nat) \<and> (1::nat) \<le> 8 \<longrightarrow> rnd (real 1 * v) = real 1 * v"
    using assms(2) by (rule spec)
  then have one: "rnd v = v" by simp
  show ?thesis
    by (simp add: last_average_eq [OF ne] push_replicate [OF assms(1)] sum_slots_all)
       (simp add: N_def f one)
qed

text \<open>
  C4, as stated, fails in binary32: the readings (7, 0) give the current
  \<open>15070123 / 2 ^ 27\<close>, a value in \<open>[0.0, MAX_CURRENT]\<close>, and after pushing it
  \<open>N\<close> times the averaged current is \<open>15070122 / 2 ^ 27\<close>, one unit in the last
  place below.
\<close>

theorem repeated_sample_counterexample:
  "0 \<le> getCurrent round32 7 0 \<and> getCurrent round32 7 0 \<le> MAX_CURRENT \<and>
   getCurrent round32 7 0 = 15070123 / 2 ^ 27 \<and>
   last_average round32 init_globals (replicate N (getCurrent round32 7 0)) = 15070122 / 2 ^ 27 \<and>
   last_average round32 init_globals (replicate N (getCurrent round32 7 0)) \<noteq>
     getCurrent round32 7 0"
proof -
  have r: "replicate N x = [x, x, x, x, x, x, x, x]" for x :: real
    by (simp add: N_def numeral_eq_Suc)
  have "last_average round32 init_globals (replicate N (15070123 / 2 ^ 27)) = 15070122 / 2 ^ 27"
    unfolding r by (subst last_average_full) (simp_all add: N_def float_eval)
  then show ?thesis
    by (simp add: getCurrent_values MAX_CURRENT_def)
qed

text \<open>
  C4, amended: for every value \<open>v\<close> in \<open>[0.0, MAX_CURRENT]\<close> (and any other), pushing
  \<open>v\<close> into the ring buffer \<open>N = 8\<close> consecutive times, from any state, fills every
  slot with \<open>v\<close> and makes the averaged current the float sum of eight copies of
  \<open>v\<close>, rounded after each addition, divided by \<open>N\<close> and rounded. That is exactly
  \<open>v\<close> whenever the multiples \<open>v, 2v, \<dots>, 8v\<close> are values of the float format, so
  that no operation rounds; in binary32 this is the case for every \<open>v = m * 2 ^ e\<close>
  with an integer \<open>0 \<le> m < 2 ^ 21\<close> (written \<open>m * quantum j\<close> with \<open>e = j - 149\<close>),
  0.0 and \<open>MAX_CURRENT\<close> among them. In exact arithmetic it is \<open>v\<close> for every
  \<open>v\<close>.
\<close>

theorem repeated_sample_average:
  assumes "length (current g) = N"
  shows "current (push_samples rnd g (replicate N v)) = replicate N v \<and>
    last_average rnd g (replicate N v) =
      rnd (foldl (\<lambda>a c. rnd (a + c)) 0 (replicate N v) / 8) \<and>
    ((\<forall>k\<in>{1..8}. rnd (real k * v) = real k * v) \<longrightarrow>
      last_average rnd g (replicate N v) = v) \<and>
    last_average (\<lambda>x. x) g (replicate N v) = v \<and>
    (0 \<le> m \<and> m < 2 ^ 21 \<and> of_int m * quantum j \<le> MAX_CURRENT \<longrightarrow>
      last_average round32 g (replicate N (of_int m * quantum j)) = of_int m * quantum j)"
proof -
  have ne: "replicate N v \<noteq> []" by (simp add: N_def)
  have slots: "current (push_samples rnd g (replicate N v)) = replicate N v"
    using assms by (rule push_replicate)
  have avg: "last_average rnd g (replicate N v) =
      rnd (foldl (\<lambda>a c. rnd (a + c)) 0 (replicate N v) / 8)"
    by (simp add: last_average_eq [OF ne] slots sum_slots_all) (simp add: N_def)
  have exact: "last_average rnd g (replicate N v) = v"
    if "\<forall>k\<in>{1..8}. rnd (real k * v) = real k * v"
    using assms
  proof (rule repeated_exact)
    show "\<forall>k. 1 \<le> k \<and> k \<le> 8 \<longrightarrow> rnd (real k * v) = real k * v"
      using that by simp
  qed
  have ideal: "last_average (\<lambda>x. x) g (replicate N v) = v"
    using assms by (rule repeated_exact) simp
  have dyadic: "last_average round32 g (replicate N (of_int m * quantum j)) = of_int m * quantum j"
    if m: "0 \<le> m" "m < 2 ^ 21"
    using assms
  proof (rule repeated_exact)
    show "\<forall>k. 1 \<le> k \<and> k \<le> 8 \<longrightarrow>
      round32 (real k * (of_int m * quantum j)) = real k * (of_int m * quantum j)"
    proof (intro allI impI)
      fix k :: nat
      assume k: "1 \<le> k \<and> k \<le> 8"
      have "int k * m \<le> 8 * 2097151"
        using k m by (intro mult_mono) simp_all
      then have "round32 (of_int (int k * m) * quantum j) = of_int (int k * m) * quantum j"
        using m(1) by (intro round32_exact) simp_all
      then show "round32 (real k * (of_int m * quantum j)) = real k * (of_int m * quantum j)"
        by (simp add: mult.assoc)
    qed
  qed
  show ?thesis
    using slots avg exact ideal dyadic by blast
qed

text \<open>
  The readings (4, 3) give a current whose multiples up to eight are binary32 values,
  so the average of eight pushes is that current; \<open>MAX_CURRENT\<close> is \<open>5 * 2 ^ -1\<close>.
\<close>

lemma partial_sums_4_3:
  "\<forall>k\<in>{1..8}. round32 (real k * (2152875 / 2 ^ 27)) = real k * (2152875 / 2 ^ 27)"
proof -
  have "{1..8::nat} = {1, 2, 3, 4, 5, 6, 7, 8}" by auto
  then show ?thesis by (simp add: float_eval)
qed

theorem repeated_sample_average_witness:
  "length (current init_globals) = N \<and>
   getCurrent round32 4 3 = 2152875 / 2 ^ 27 \<and>
   round32 (2152875 / 2 ^ 27) = 2152875 / 2 ^ 27 \<and>
   round32 (2 * (2152875 / 2 ^ 27)) = 2 * (2152875 / 2 ^ 27) \<and>
   round32 (3 * (2152875 / 2 ^ 27)) = 3 * (2152875 / 2 ^ 27) \<and>
   round32 (4 * (2152875 / 2 ^ 27)) = 4 * (2152875 / 2 ^ 27) \<and>
   round32 (5 * (2152875 / 2 ^ 27)) = 5 * (2152875 / 2 ^ 27) \<and>
   round32 (6 * (2152875 / 2 ^ 27)) = 6 * (2152875 / 2 ^ 27) \<and>
   round32 (7 * (2152875 / 2 ^ 27)) = 7 * (2152875 / 2 ^ 27) \<and>
   round32 (8 * (2152875 / 2 ^ 27)) = 8 * (2152875 / 2 ^ 27) \<and>
   last_average round32 init_globals (replicate N (2152875 / 2 ^ 27)) = 2152875 / 2 ^ 27 \<and>
   (0::int) \<le> 5 \<and> (5::int) < 2 ^ 21 \<and> of_int 5 * quantum 148 \<le> MAX_CURRENT \<and>
   of_int 5 * quantum 148 = MAX_CURRENT \<and>
   last_average round32 init_globals (replicate N (of_int 5 * quantum 148)) =
     of_int 5 * quantum 148"
proof -
  have h: "length (current init_globals) = N" by (simp add: init_globals_def)
  have m: "(0::int) \<le> 5 \<and> (5::int) < 2 ^ 21 \<and> of_int 5 * quantum 148 \<le> MAX_CURRENT"
    by (simp add: quantum_def MAX_CURRENT_def)
  have e: "of_int 5 * quantum 148 = MAX_CURRENT"
    by (simp add: quantum_def MAX_CURRENT_def)
  have p: "round32 (2152875 / 2 ^ 27) = 2152875 / 2 ^ 27 \<and>
   round32 (2 * (2152875 / 2 ^ 27)) = 2 * (2152875 / 2 ^ 27) \<and>
   round32 (3 * (2152875 / 2 ^ 27)) = 3 * (2152875 / 2 ^ 27) \<and>
   round32 (4 * (2152875 / 2 ^ 27)) = 4 * (2152875 / 2 ^ 27) \<and>
   round32 (5 * (2152875 / 2 ^ 27)) = 5 * (2152875 / 2 ^ 27) \<and>
   round32 (6 * (2152875 / 2 ^ 27)) = 6 * (2152875 / 2 ^ 27) \<and>
   round32 (7 * (2152875 / 2 ^ 27)) = 7 * (2152875 / 2 ^ 27) \<and>
   round32 (8 * (2152875 / 2 ^ 27)) = 8 * (2152875 / 2 ^ 27)"
    by (simp add: float_eval)
  have "last_average round32 init_globals (replicate N (2152875 / 2 ^ 27)) = 2152875 / 2 ^ 27"
    and "last_average round32 init_globals (replicate N (of_int 5 * quantum 148)) =
      of_int 5 * quantum 148"
    using m partial_sums_4_3
      repeated_sample_average [OF h, of round32 "2152875 / 2 ^ 27" 5 148]
    by blast+
  with h m e p getCurrent_4_3 show ?thesis
    by (intro conjI) (elim conjE, assumption)+
qed

text \<open>
  C10: in every state the sketch can reach, where each ring-buffer slot holds the
  initial 0.0 or a value returned by \<open>getCurrent\<close>, the value that
  \<open>updatePower\<close> passes to \<open>powerGauge->setValue\<close> is defined and lies within
  the bounds \<open>[0, MAX_VAL]\<close> the gauge was constructed with, and \<open>MAX_VAL\<close> is
  2500. This holds in binary32 arithmetic, for any pair of ADC readings.
\<close>

theorem setValue_within_gauge:
  "reachable round32 g \<Longrightarrow>
   \<exists>v. snd (snd (updatePower round32 g a0 a1)) = Some v \<and> 0 \<le> v \<and> v \<le> 2500 \<and>
       MAX_VAL round32 = Some 2500"
proof -
  assume "reachable round32 g"
  then have "slots_ok g" by (rule reachable_slots_ok)
  then have "\<exists>n. snd (snd (store_and_average round32 g (getCurrent round32 a0 a1))) = Some n \<and>
      0 \<le> n \<and> n \<le> 2500"
    using getCurrent_bounds by (rule store_and_average_ok(2))
  moreover have "MAX_VAL round32 = Some 2500"
    by (simp add: MAX_VAL_def MAX_CURRENT_def round32_2500 float_to_int_def)
  ultimately show ?thesis by (simp add: updatePower_def)
qed

theorem setValue_within_gauge_witness:
  "reachable round32 init_globals \<and>
   (\<exists>v. snd (snd (updatePower round32 init_globals 1023 0)) = Some v \<and> 0 \<le> v \<and> v \<le> 2500 \<and>
       MAX_VAL round32 = Some 2500)"
  using setValue_within_gauge [OF reachable_init, of 1023 0] reachable_init [of round32]
  by simp

end
